theory Spec2Isabelle
  imports Complex_Main "HOL-Library.Sublist"
begin

section \<open>Python strings\<close>

text \<open>
  A Python \<open>str\<close> is modelled as a \<open>string\<close>, one \<open>char\<close> per character: the \<open>char\<close> of
  number \<open>n\<close> is the code point \<open>n\<close>, so the model covers the text whose code points lie
  below 256 (ASCII and Latin-1). The characters are classified as Python classifies these
  code points (\<open>str.isspace\<close>, \<open>str.lower\<close>, \<open>str.upper\<close>, the classes \<open>\w\<close> and \<open>\d\<close> of
  \<open>re\<close>). The one character beyond 255 that the code names, the bullet U+2022 in
  \<open>_parse_questions\<close>, is represented by the character \<open>bullet\<close> of number 0x95, in place of
  the control character of that number.
  Python floats are modelled as real numbers.
\<close>

definition is_space :: "char \<Rightarrow> bool" where
  "is_space c = (let n = (of_char c :: nat) in
     (9 \<le> n \<and> n \<le> 13) \<or> (28 \<le> n \<and> n \<le> 32) \<or> n = 133 \<or> n = 160)"

text \<open>The characters that \<open>str.lower\<close> changes: A to Z, and the capital letters of Latin-1.\<close>

definition is_upper :: "char \<Rightarrow> bool" where
  "is_upper c = (let n = (of_char c :: nat) in
     (65 \<le> n \<and> n \<le> 90) \<or> (192 \<le> n \<and> n \<le> 214) \<or> (216 \<le> n \<and> n \<le> 222))"

definition is_digit :: "char \<Rightarrow> bool" where
  "is_digit c = (let n = (of_char c :: nat) in 48 \<le> n \<and> n \<le> 57)"

text \<open>\<open>\w\<close>: the underscore and the characters for which \<open>str.isalnum\<close> holds.\<close>

definition is_word :: "char \<Rightarrow> bool" where
  "is_word c = (let n = (of_char c :: nat) in
     (48 \<le> n \<and> n \<le> 57) \<or> (65 \<le> n \<and> n \<le> 90) \<or> n = 95 \<or> (97 \<le> n \<and> n \<le> 122) \<or>
     n = 170 \<or> n = 178 \<or> n = 179 \<or> n = 181 \<or> n = 185 \<or> n = 186 \<or>
     (188 \<le> n \<and> n \<le> 190) \<or> (192 \<le> n \<and> n \<le> 214) \<or> (216 \<le> n \<and> n \<le> 246) \<or>
     (248 \<le> n \<and> n \<le> 255))"

definition lower_chr :: "char \<Rightarrow> char" where
  "lower_chr c = (if is_upper c then char_of ((of_char c :: nat) + 32) else c)"

text \<open>\<open>s.lower()\<close>\<close>

definition lower :: "string \<Rightarrow> string" where
  "lower s = map lower_chr s"

text \<open>
  \<open>s.upper()\<close>. The sharp s (0xDF) becomes the two letters SS. The micro sign (0xB5) and the
  y with diaeresis (0xFF) have their capitals beyond code point 255: a text with one of
  them has no upper-case form in the model, which is the value \<open>None\<close>.
\<close>

definition upper_chr :: "char \<Rightarrow> string option" where
  "upper_chr c = (let n = (of_char c :: nat) in
     if n = 223 then Some ''SS''
     else if n = 181 \<or> n = 255 then None
     else if (97 \<le> n \<and> n \<le> 122) \<or> (224 \<le> n \<and> n \<le> 246) \<or> (248 \<le> n \<and> n \<le> 254)
       then Some [char_of (n - 32)]
     else Some [c])"

fun upper :: "string \<Rightarrow> string option" where
  "upper [] = Some []"
| "upper (c # cs) =
     (case upper_chr c of
        None \<Rightarrow> None
      | Some u \<Rightarrow> (case upper cs of None \<Rightarrow> None | Some us \<Rightarrow> Some (u @ us)))"

text \<open>\<open>s.strip()\<close> and \<open>s.strip(chars)\<close>\<close>

definition strip :: "string \<Rightarrow> string" where
  "strip s = rev (dropWhile is_space (rev (dropWhile is_space s)))"

definition strip_chars :: "string \<Rightarrow> string \<Rightarrow> string" where
  "strip_chars cs s =
     rev (dropWhile (\<lambda>c. c \<in> set cs) (rev (dropWhile (\<lambda>c. c \<in> set cs) s)))"

text \<open>\<open>s.split(c)\<close> for a one-character separator: never empty, \<open>''''.split(c) = ['''']\<close>.\<close>

fun split_on :: "char \<Rightarrow> string \<Rightarrow> string list" where
  "split_on c [] = [[]]"
| "split_on c (x # xs) =
     (if x = c then [] # split_on c xs
      else (case split_on c xs of [] \<Rightarrow> [[x]] | w # ws \<Rightarrow> (x # w) # ws))"

text \<open>\<open>s.startswith(p)\<close> and \<open>p in s\<close>\<close>

definition startswith :: "string \<Rightarrow> string \<Rightarrow> bool" where
  "startswith s p = (take (length p) s = p)"

fun contains :: "string \<Rightarrow> string \<Rightarrow> bool" where
  "contains [] p = (p = [])"
| "contains (x # xs) p = (startswith (x # xs) p \<or> contains xs p)"

section \<open>Regular expressions\<close>

text \<open>
  The fragment of Python's \<open>re\<close> that the code uses: literals, character classes, a greedy
  star or plus over a class, an optional part, alternation, sequence, the word boundary
  \<open>\b\<close> and the anchors. \<open>ends ic r s i\<close> lists the positions where a match of \<open>r\<close> that
  starts at position \<open>i\<close> of \<open>s\<close> can end, in the order a backtracking matcher tries them
  (greedy repetition first, alternatives left to right); \<open>ic\<close> is \<open>re.IGNORECASE\<close>.
\<close>

datatype cclass = OneOf string | NoneOf string | Digit | WordChar

datatype regex =
    Lit string
  | One cclass
  | Star cclass
  | Plus cclass
  | Opt regex
  | Alt regex regex
  | Seq regex regex
  | WordB
  | Bol
  | Eol

definition fold_case :: "bool \<Rightarrow> char \<Rightarrow> char" where
  "fold_case ic c = (if ic then lower_chr c else c)"

fun in_class :: "bool \<Rightarrow> cclass \<Rightarrow> char \<Rightarrow> bool" where
  "in_class ic (OneOf cs) c = (fold_case ic c \<in> set (map (fold_case ic) cs))"
| "in_class ic (NoneOf cs) c = (fold_case ic c \<notin> set (map (fold_case ic) cs))"
| "in_class ic Digit c = is_digit c"
| "in_class ic WordChar c = is_word c"

definition word_boundary :: "string \<Rightarrow> nat \<Rightarrow> bool" where
  "word_boundary s i =
     ((0 < i \<and> i \<le> length s \<and> is_word (s ! (i - 1))) \<noteq> (i < length s \<and> is_word (s ! i)))"

fun ends :: "bool \<Rightarrow> regex \<Rightarrow> string \<Rightarrow> nat \<Rightarrow> nat list" where
  "ends ic (Lit p) s i =
     (if map (fold_case ic) (take (length p) (drop i s)) = map (fold_case ic) p
      then [i + length p] else [])"
| "ends ic (One k) s i = (if i < length s \<and> in_class ic k (s ! i) then [Suc i] else [])"
| "ends ic (Star k) s i =
     rev (map (\<lambda>j. i + j) [0 ..< Suc (length (takeWhile (in_class ic k) (drop i s)))])"
| "ends ic (Plus k) s i =
     rev (map (\<lambda>j. i + j) [1 ..< Suc (length (takeWhile (in_class ic k) (drop i s)))])"
| "ends ic (Opt r) s i = ends ic r s i @ [i]"
| "ends ic (Alt a b) s i = ends ic a s i @ ends ic b s i"
| "ends ic (Seq a b) s i = concat (map (ends ic b s) (ends ic a s i))"
| "ends ic WordB s i = (if word_boundary s i then [i] else [])"
| "ends ic Bol s i = (if i = 0 then [i] else [])"
| "ends ic Eol s i =
     (if i = length s \<or> (Suc i = length s \<and> s ! i = CHR 0x0A) then [i] else [])"

text \<open>
  \<open>pattern.search(s)\<close>: the leftmost start with a match, and the end the matcher finds
  first there; \<open>None\<close> when nothing matches. \<open>group s m\<close> is the matched text.
\<close>

definition search_from :: "bool \<Rightarrow> regex \<Rightarrow> string \<Rightarrow> nat \<Rightarrow> (nat \<times> nat) option" where
  "search_from ic r s pos =
     (case List.find (\<lambda>i. ends ic r s i \<noteq> []) [pos ..< Suc (length s)] of
        None \<Rightarrow> None
      | Some i \<Rightarrow> Some (i, hd (ends ic r s i)))"

definition search :: "bool \<Rightarrow> regex \<Rightarrow> string \<Rightarrow> (nat \<times> nat) option" where
  "search ic r s = search_from ic r s 0"

definition group :: "string \<Rightarrow> nat \<times> nat \<Rightarrow> string" where
  "group s m = take (snd m - fst m) (drop (fst m) s)"

text \<open>
  \<open>re.findall(r, s)\<close> for a pattern with at most one group around the whole of it: the
  matches from left to right, each search starting where the last match ended (one
  character further after an empty match).
\<close>

function findall_from :: "bool \<Rightarrow> regex \<Rightarrow> string \<Rightarrow> nat \<Rightarrow> string list" where
  "findall_from ic r s pos =
     (case search_from ic r s pos of
        None \<Rightarrow> []
      | Some (i, j) \<Rightarrow>
          group s (i, j) # findall_from ic r s (if i < j then j else Suc i))"
  by pat_completeness auto

termination findall_from
proof (relation "measure (\<lambda>(ic, r, s, pos). Suc (length s) - pos)")
  show "wf (measure (\<lambda>(ic, r, s, pos). Suc (length s) - pos))" by simp
next
  fix ic :: bool and r :: regex and s :: string and pos :: nat
    and x2 :: "nat \<times> nat" and i j :: nat
  assume a: "search_from ic r s pos = Some x2" "(i, j) = x2"
  then have "List.find (\<lambda>i. ends ic r s i \<noteq> []) [pos ..< Suc (length s)] = Some i"
    by (auto simp del: upt_Suc simp: search_from_def split: option.splits)
  then have "i \<in> set [pos ..< Suc (length s)]"
    by (auto simp: find_Some_iff simp del: upt_Suc)
  then have "pos \<le> i" "i \<le> length s" by auto
  then show "((ic, r, s, if i < j then j else Suc i), ic, r, s, pos)
       \<in> measure (\<lambda>(ic, r, s, pos). Suc (length s) - pos)"
    by auto
qed

declare findall_from.simps [simp del]

definition findall :: "bool \<Rightarrow> regex \<Rightarrow> string \<Rightarrow> string list" where
  "findall ic r s = findall_from ic r s 0"

definition alts :: "string list \<Rightarrow> regex" where
  "alts ws = foldr Alt (map Lit (butlast ws)) (Lit (last ws))"

text \<open>\<open>\b(w1|w2|...)\b\<close>\<close>

definition word_of :: "string list \<Rightarrow> regex" where
  "word_of ws = Seq WordB (Seq (alts ws) WordB)"

text \<open>\<open>^[!]*[xX][yY]...[!]*$\<close>, the classes given as a list of two-letter strings\<close>

definition shout_of :: "string list \<Rightarrow> regex" where
  "shout_of cs =
     Seq Bol (Seq (Star (OneOf ''!''))
       (foldr (\<lambda>c r. Seq (One (OneOf c)) r) cs (Seq (Star (OneOf ''!'')) Eol)))"

section \<open>IntentClassifier: the pattern-based strategy\<close>

text \<open>The four pattern tables of \<open>__init__\<close>, compiled with \<open>re.IGNORECASE\<close>.\<close>

definition greeting_regex :: "regex list" where
  "greeting_regex =
     [word_of [''hi'', ''hello'', ''hey'', ''good morning'', ''good afternoon'',
               ''good evening'', ''greetings''],
      word_of [''how are you'', ''how do you do'', ''what's up'', ''sup''],
      word_of [''nice to meet you'', ''pleased to meet you''],
      word_of [''good day'', ''good night''],
      shout_of [''hH'', ''eE'', ''lL'', ''lL'', ''oO''],
      shout_of [''hH'', ''iI''],
      shout_of [''hH'', ''eE'', ''yY'']]"

definition query_regex :: "regex list" where
  "query_regex =
     [word_of [''what'', ''how'', ''why'', ''when'', ''where'', ''who'', ''which'',
               ''can you'', ''could you'', ''would you''],
      word_of [''explain'', ''describe'', ''tell me'', ''show me'', ''help me''],
      word_of [''how to'', ''how do'', ''how can'', ''how does''],
      word_of [''what is'', ''what are'', ''what does'', ''what do''],
      word_of [''why is'', ''why are'', ''why does'', ''why do''],
      word_of [''when is'', ''when are'', ''when does'', ''when do''],
      word_of [''where is'', ''where are'', ''where does'', ''where do''],
      word_of [''who is'', ''who are'', ''who does'', ''who do''],
      word_of [''which is'', ''which are'', ''which does'', ''which do''],
      word_of [''can you'', ''could you'', ''would you'', ''will you''],
      word_of [''please'', ''help'', ''assist'', ''support'']]"

definition information_regex :: "regex list" where
  "information_regex =
     [word_of [''here is'', ''here are'', ''let me tell you'', ''i want to tell you''],
      word_of [''i have'', ''i know'', ''i think'', ''i believe'', ''i feel''],
      word_of [''in my opinion'', ''according to'', ''based on''],
      word_of [''i want to share'', ''i'd like to share'', ''let me share''],
      word_of [''this is'', ''these are'', ''that is'', ''those are''],
      word_of [''i found'', ''i discovered'', ''i learned''],
      word_of [''update'', ''news'', ''information'', ''data'', ''fact'']]"

definition feedback_regex :: "regex list" where
  "feedback_regex =
     [word_of [''thank you'', ''thanks'', ''thx'', ''thank''],
      word_of [''great'', ''awesome'', ''excellent'', ''amazing'', ''wonderful'', ''fantastic''],
      word_of [''good'', ''nice'', ''cool'', ''sweet'', ''perfect'', ''brilliant''],
      word_of [''bad'', ''terrible'', ''awful'', ''horrible'', ''disappointing''],
      word_of [''wrong'', ''incorrect'', ''not right'', ''not correct''],
      word_of [''like'', ''love'', ''enjoy'', ''appreciate''],
      word_of [''dislike'', ''hate'', ''don't like'', ''not good''],
      word_of [''helpful'', ''useful'', ''useless'', ''not helpful''],
      word_of [''clear'', ''confusing'', ''unclear'', ''understand'', ''don't understand''],
      word_of [''agree'', ''disagree'', ''correct'', ''incorrect''],
      word_of [''rate'', ''rating'', ''score'', ''review'', ''feedback''],
      word_of [''improve'', ''better'', ''worse'', ''change'']]"

text \<open>\<open>_calculate_score(message, patterns)\<close>\<close>

definition calculate_score :: "string \<Rightarrow> regex list \<Rightarrow> real" where
  "calculate_score message patterns =
     (let matches = length (filter (\<lambda>pattern. search True pattern message \<noteq> None) patterns);
          total_patterns = length patterns;
          base_score = (if total_patterns > 0 then real matches / real total_patterns else 0);
          length_factor = max 0.5 (1.0 - real (length message) / 200)
      in min 1.0 (base_score * length_factor))"

text \<open>
  \<open>max(scores, key=scores.get)\<close> over a dict in insertion order: the first entry is the
  best so far, and a later entry replaces it only when its score is strictly greater.
\<close>

fun max_by_score :: "string \<times> real \<Rightarrow> (string \<times> real) list \<Rightarrow> string \<times> real" where
  "max_by_score best [] = best"
| "max_by_score best (x # xs) = max_by_score (if snd best < snd x then x else best) xs"

text \<open>The \<open>scores\<close> dict of \<open>classify_intent\<close>, for the stripped and lowercased message.\<close>

definition scores :: "string \<Rightarrow> (string \<times> real) list" where
  "scores message =
     [(''greetings'', calculate_score message greeting_regex),
      (''query'', calculate_score message query_regex),
      (''information'', calculate_score message information_regex),
      (''feedback'', calculate_score message feedback_regex)]"

text \<open>\<open>IntentClassifier.classify_intent(message)\<close>\<close>

definition classify_intent :: "string \<Rightarrow> string \<times> real" where
  "classify_intent message0 =
     (if message0 = [] \<or> strip message0 = [] then (''query'', 0.0)
      else
        let message = lower (strip message0);
            (max_intent, max_score) = max_by_score (hd (scores message)) (tl (scores message))
        in if max_score < 0.1 then (''query'', 0.1) else (max_intent, max_score))"

text \<open>\<open>extract_keywords(message)\<close>, the same text in both classifier classes.\<close>

definition word_regex :: regex where
  "word_regex = Seq WordB (Seq (Plus WordChar) WordB)"

definition stop_words :: "string list" where
  "stop_words =
     [''the'', ''a'', ''an'', ''and'', ''or'', ''but'', ''in'', ''on'', ''at'', ''to'', ''for'',
      ''of'', ''with'', ''by'', ''is'', ''are'', ''was'', ''were'', ''be'', ''been'', ''being'',
      ''have'', ''has'', ''had'', ''do'', ''does'', ''did'', ''will'', ''would'', ''could'',
      ''should'', ''may'', ''might'', ''can'', ''this'', ''that'', ''these'', ''those'',
      ''i'', ''you'', ''he'', ''she'', ''it'', ''we'', ''they'', ''me'', ''him'', ''her'',
      ''us'', ''them'']"

definition extract_keywords :: "string \<Rightarrow> string list" where
  "extract_keywords message =
     (let words = findall False word_regex (lower message);
          keywords = filter (\<lambda>word. word \<notin> set stop_words \<and> length word > 2) words
      in take 10 keywords)"

definition ai_extract_keywords :: "string \<Rightarrow> string list" where
  "ai_extract_keywords message =
     (let words = findall False word_regex (lower message);
          keywords = filter (\<lambda>word. word \<notin> set stop_words \<and> length word > 2) words
      in take 10 keywords)"

section \<open>Exceptions and the text generation gateway\<close>

text \<open>
  An exception is a value: a computation that can raise returns \<open>exn + 'a\<close>, with \<open>Inl\<close>
  the exception. \<open>try_except body handler\<close> is \<open>try: body except Exception as e: handler\<close>.
\<close>

datatype exn = GatewayError | JSONDecodeError | TypeError

definition try_except :: "exn + 'a \<Rightarrow> (exn \<Rightarrow> exn + 'a) \<Rightarrow> exn + 'a" where
  "try_except body handler = (case body of Inl e \<Rightarrow> handler e | Inr v \<Rightarrow> Inr v)"

definition and_then :: "exn + 'a \<Rightarrow> ('a \<Rightarrow> exn + 'b) \<Rightarrow> exn + 'b" where
  "and_then r f = (case r of Inl e \<Rightarrow> Inl e | Inr v \<Rightarrow> f v)"

text \<open>
  \<open>LMStudioClient.chat_completion\<close> is the external collaborator: it returns the generated
  text or raises. The gateway is a state: the outcomes of the calls still to come, in
  order (\<open>None\<close> for a call that fails, \<open>Some t\<close> for a call that returns the text \<open>t\<close>), and
  the number of calls made so far. A call beyond the listed outcomes fails. The prompt of
  a call only influences what the backend answers; as every answer is an arbitrary input
  of the model, the prompts are not built.
\<close>

record gateway =
  outcomes :: "string option list"
  calls :: nat

definition chat_completion :: "gateway \<Rightarrow> (exn + string) \<times> gateway" where
  "chat_completion g =
     (case outcomes g of
        [] \<Rightarrow> (Inl GatewayError, g\<lparr>calls := Suc (calls g)\<rparr>)
      | None # rest \<Rightarrow> (Inl GatewayError, \<lparr>outcomes = rest, calls = Suc (calls g)\<rparr>)
      | Some t # rest \<Rightarrow> (Inr t, \<lparr>outcomes = rest, calls = Suc (calls g)\<rparr>))"

section \<open>AIIntentClassifier: the generative strategy\<close>

text \<open>
  What \<open>json.loads\<close> returns. The parser itself belongs to Python's library: the model
  takes it as the parameter \<open>loads\<close>, \<open>None\<close> when it raises \<open>JSONDecodeError\<close>. A number
  is a finite int or float; an object lists the items of the dict, each key once.
\<close>

datatype json =
    JNull
  | JBool bool
  | JNumber real
  | JString string
  | JArray "json list"
  | JObject "(string \<times> json) list"

type_synonym json_loads = "string \<Rightarrow> json option"

text \<open>A parser that accepts nothing, for the inputs on which \<open>json.loads\<close> is never reached.\<close>

definition loads_nothing :: json_loads where
  "loads_nothing s = None"

text \<open>The dict a parse returns, by its keys \<open>intent\<close> and \<open>confidence\<close>.\<close>

record intent_result =
  r_intent :: string
  r_confidence :: real

text \<open>The keys of \<open>intent_categories\<close>, in insertion order.\<close>

definition intent_categories :: "string list" where
  "intent_categories = [''greetings'', ''query'', ''information'', ''feedback'']"

text \<open>\<open>float(text)\<close> for a text of the shape \<open>\d+\.?\d*\<close>\<close>

definition digits_value :: "string \<Rightarrow> nat" where
  "digits_value ds = foldl (\<lambda>a c. 10 * a + ((of_char c :: nat) - 48)) 0 ds"

definition float_of :: "string \<Rightarrow> real" where
  "float_of t =
     (let whole = takeWhile is_digit t;
          frac = takeWhile is_digit (drop 1 (dropWhile is_digit t))
      in real (digits_value whole) + real (digits_value frac) / 10 ^ length frac)"

text \<open>\<open>(\d+\.?\d*)\<close> and \<open>\{[^}]*"intent"[^}]*\}\<close>\<close>

definition number_regex :: regex where
  "number_regex = Seq (Plus Digit) (Seq (Opt (Lit ''.'')) (Star Digit))"

definition json_regex :: regex where
  "json_regex =
     Seq (Lit ''{'') (Seq (Star (NoneOf ''}''))
       (Seq (Lit (CHR 0x22 # ''intent'' @ [CHR 0x22])) (Seq (Star (NoneOf ''}'')) (Lit ''}''))))"

text \<open>\<open>_extract_intent_from_text(response)\<close>\<close>

definition extract_intent_from_text :: "string \<Rightarrow> intent_result option" where
  "extract_intent_from_text response =
     (let response_lower = lower response in
      case List.find (\<lambda>i. contains response_lower i) intent_categories of
        None \<Rightarrow> None
      | Some i \<Rightarrow>
          let confidence_match = search False number_regex response;
              c = (case confidence_match of
                     None \<Rightarrow> 0.8
                   | Some m \<Rightarrow>
                       let conf_val = float_of (group response m)
                       in if conf_val > 1 then conf_val / 100 else conf_val)
          in Some \<lparr>r_intent = i, r_confidence = c\<rparr>)"

text \<open>
  The validation of the parsed object in \<open>_parse_ai_response\<close>. The test
  \<open>result['intent'] in self.intent_categories\<close> hashes the value, so a list or an object
  there raises \<open>TypeError\<close>; \<open>isinstance(c, (int, float))\<close> holds for a number and for a
  bool, and \<open>float\<close> of a bool is 0 or 1. \<open>Inr None\<close> is a result that does not validate.
\<close>

definition validated :: "json \<Rightarrow> exn + intent_result option" where
  "validated result =
     (case result of
        JObject kvs \<Rightarrow>
          (case map_of kvs ''intent'' of
             None \<Rightarrow> Inr None
           | Some (JArray xs) \<Rightarrow> Inl TypeError
           | Some (JObject ys) \<Rightarrow> Inl TypeError
           | Some (JString i) \<Rightarrow>
               (if i \<in> set intent_categories then
                  (case map_of kvs ''confidence'' of
                     Some (JNumber x) \<Rightarrow> Inr (Some \<lparr>r_intent = i, r_confidence = max 0.0 (min 1.0 x)\<rparr>)
                   | Some (JBool b) \<Rightarrow>
                       Inr (Some \<lparr>r_intent = i, r_confidence = max 0.0 (min 1.0 (if b then 1 else 0))\<rparr>)
                   | _ \<Rightarrow> Inr None)
                else Inr None)
           | Some _ \<Rightarrow> Inr None)
      | _ \<Rightarrow> Inr None)"

text \<open>\<open>_parse_ai_response(response)\<close>: the body of its \<open>try\<close>, then the whole method.\<close>

definition parse_ai_response_body :: "json_loads \<Rightarrow> string \<Rightarrow> exn + intent_result option" where
  "parse_ai_response_body loads response0 =
     (let response = strip response0 in
      case search False json_regex response of
        None \<Rightarrow> Inr (extract_intent_from_text response)
      | Some json_match \<Rightarrow>
          (case loads (group response json_match) of
             None \<Rightarrow> Inl JSONDecodeError
           | Some result \<Rightarrow>
               and_then (validated result)
                 (\<lambda>v. case v of
                    Some r \<Rightarrow> Inr (Some r)
                  | None \<Rightarrow> Inr (extract_intent_from_text response))))"

definition parse_ai_response :: "json_loads \<Rightarrow> string \<Rightarrow> intent_result option" where
  "parse_ai_response loads response =
     (case parse_ai_response_body loads response of Inl e \<Rightarrow> None | Inr r \<Rightarrow> r)"

text \<open>\<open>AIIntentClassifier.classify_intent(message)\<close>\<close>

definition ai_classify_intent ::
  "json_loads \<Rightarrow> gateway \<Rightarrow> string \<Rightarrow> (exn + string \<times> real) \<times> gateway" where
  "ai_classify_intent loads g message =
     (if message = [] \<or> strip message = [] then (Inr (''query'', 0.1), g)
      else
        let (response, g') = chat_completion g
        in (try_except
              (and_then response
                 (\<lambda>t. case parse_ai_response loads t of
                    Some intent_result \<Rightarrow> Inr (r_intent intent_result, r_confidence intent_result)
                  | None \<Rightarrow> Inr (''query'', 0.5)))
              (\<lambda>e. Inr (''query'', 0.3)),
            g'))"

section \<open>ChainQueryGenerator: the follow-up pipeline\<close>

text \<open>The analysis dict of \<open>_parse_analysis\<close>; \<open>response_type\<close> is its key \<open>type\<close>.\<close>

record analysis =
  response_type :: string
  topics :: "string list"
  complexity :: string
  completeness :: string
  exploration :: string

definition default_analysis :: analysis where
  "default_analysis =
     \<lparr>response_type = ''general'', topics = [''general information''],
      complexity = ''moderate'', completeness = ''complete'',
      exploration = ''general aspects''\<rparr>"

text \<open>\<open>line.split(':', 1)[1]\<close>, used on lines that start with a prefix ending in a colon.\<close>

definition after_colon :: "string \<Rightarrow> string" where
  "after_colon line = drop 1 (dropWhile (\<lambda>c. c \<noteq> CHR '':'') line)"

definition parse_analysis_line :: "analysis \<Rightarrow> string \<Rightarrow> analysis" where
  "parse_analysis_line a line =
     (if startswith line ''Type:'' then a\<lparr>response_type := lower (strip (after_colon line))\<rparr>
      else if startswith line ''Topics:'' then
        a\<lparr>topics := map strip (split_on CHR '','' (strip (after_colon line)))\<rparr>
      else if startswith line ''Complexity:'' then
        a\<lparr>complexity := lower (strip (after_colon line))\<rparr>
      else if startswith line ''Completeness:'' then
        a\<lparr>completeness := lower (strip (after_colon line))\<rparr>
      else if startswith line ''Exploration:'' then
        a\<lparr>exploration := strip (after_colon line)\<rparr>
      else a)"

definition parse_analysis :: "string \<Rightarrow> analysis" where
  "parse_analysis response =
     foldl parse_analysis_line default_analysis (split_on CHR 0x0A (strip response))"

text \<open>\<open>_analyze_response(ai_response, intent)\<close>\<close>

definition analyze_response :: "gateway \<Rightarrow> string \<Rightarrow> string \<Rightarrow> (exn + analysis) \<times> gateway" where
  "analyze_response g ai_response intent =
     (let (response, g') = chat_completion g
      in (try_except (and_then response (\<lambda>t. Inr (parse_analysis t)))
            (\<lambda>e. Inr default_analysis),
          g'))"

text \<open>
  \<open>_parse_questions(response)\<close>. The characters of \<open>line.strip('...')\<close> are the bullet, the
  hyphen, the asterisk, the digits 1 to 9, the full stop and the space.
\<close>

definition bullet :: char where
  "bullet = CHR 0x95"

definition markers :: string where
  "markers = bullet # ''-*123456789. ''"

fun line_questions :: "string list \<Rightarrow> string list" where
  "line_questions [] = []"
| "line_questions (l # ls) =
     (let line = strip l in
      if line \<noteq> [] \<and> (CHR ''?'' \<in> set line \<or> (line \<noteq> [] \<and> last line = CHR ''?'')) then
        (let question = strip_chars markers line in
         if question \<noteq> [] \<and> length question > 10 then question # line_questions ls
         else line_questions ls)
      else line_questions ls)"

fun sentence_questions :: "string list \<Rightarrow> string list" where
  "sentence_questions [] = []"
| "sentence_questions (sentence # ss) =
     (if CHR ''?'' \<in> set sentence then
        (let question = strip sentence in
         if length question > 10 then question # sentence_questions ss
         else sentence_questions ss)
      else sentence_questions ss)"

definition parse_questions :: "string \<Rightarrow> string list" where
  "parse_questions response =
     (let questions = line_questions (split_on CHR 0x0A (strip response));
          questions' = (if questions = [] then sentence_questions (split_on CHR ''.'' response)
                        else questions)
      in take 3 questions')"



text \<open>The gating policy, \<open>should_generate_follow_up(intent, response_length)\<close>\<close>

definition should_generate_follow_up :: "string \<Rightarrow> int \<Rightarrow> bool" where
  "should_generate_follow_up intent response_length =
     (if intent = ''greetings'' \<or> response_length < 50 then False
      else intent \<in> set [''query'', ''information'', ''feedback''])"

text \<open>\<open>_get_fallback_questions(intent)\<close>\<close>

definition get_fallback_questions :: "string \<Rightarrow> string list" where
  "get_fallback_questions intent =
     (if intent = ''query'' then
        [''Would you like to know more about this?'',
         ''Do you want me to explain this in more detail?'',
         ''Should I tell you more about this topic?'']
      else if intent = ''information'' then
        [''Would you like to explore this further?'',
         ''Do you want to know more about this?'',
         ''Should I dive deeper into this topic?'']
      else
        [''Would you like to know more about this?'',
         ''Do you want to explore this further?'',
         ''Should I tell you more about this?''])"

text \<open>\<open>_generate_questions(user_message, ai_response, analysis)\<close>\<close>

definition generate_questions ::
  "gateway \<Rightarrow> string \<Rightarrow> string \<Rightarrow> analysis \<Rightarrow> (exn + string list) \<times> gateway" where
  "generate_questions g user_message ai_response a =
     (let (response, g') = chat_completion g
      in (try_except (and_then response (\<lambda>t. Inr (parse_questions t)))
            (\<lambda>e. Inr (get_fallback_questions (response_type a))),
          g'))"

text \<open>\<open>generate_follow_up_questions(user_message, ai_response, intent)\<close>\<close>

definition generate_follow_up_questions ::
  "gateway \<Rightarrow> string \<Rightarrow> string \<Rightarrow> string \<Rightarrow> (exn + string list) \<times> gateway" where
  "generate_follow_up_questions g user_message ai_response intent =
     (let (response_analysis, g1) = analyze_response g ai_response intent
      in case response_analysis of
           Inl e \<Rightarrow> (Inr (get_fallback_questions intent), g1)
         | Inr a \<Rightarrow>
             (let (follow_ups, g2) = generate_questions g1 user_message ai_response a
              in (try_except follow_ups (\<lambda>e. Inr (get_fallback_questions intent)), g2)))"

text \<open>
  \<open>append_best_follow_up_to_response(user_message, ai_response, intent)\<close>:
  \<open>append_follow_up\<close> is its \<open>try\<close> block from the result of the call of
  \<open>generate_follow_up_questions\<close> on, with its handler.
\<close>

definition append_follow_up :: "exn + string list \<Rightarrow> string \<Rightarrow> exn + string" where
  "append_follow_up generated ai_response =
     try_except
       (and_then generated
          (\<lambda>follow_ups.
             if follow_ups = [] then Inr ai_response
             else
               let best_follow_up = strip_chars [CHR 0x22] (hd follow_ups)
               in Inr (ai_response @ [CHR 0x0A, CHR 0x0A] @ best_follow_up)))
       (\<lambda>e. Inr ai_response)"

definition append_best_follow_up_to_response ::
  "gateway \<Rightarrow> string \<Rightarrow> string \<Rightarrow> string \<Rightarrow> (exn + string) \<times> gateway" where
  "append_best_follow_up_to_response g user_message ai_response intent =
     (let (generated, g') = generate_follow_up_questions g user_message ai_response intent
      in (append_follow_up generated ai_response, g'))"

section \<open>Properties\<close>

subsection \<open>The gating policy\<close>

text \<open>
  C7: \<open>should_generate_follow_up\<close> is a total function of its two arguments. It is false
  for the intent \<open>greetings\<close> at every length, false for every intent below length 50, and
  true exactly for an intent among query, information, feedback at length 50 or more; so it
  is false at (query, 49) and true at (query, 50) and at (feedback, 200).
\<close>

theorem should_generate_follow_up_gate:
  "should_generate_follow_up ''greetings'' n = False \<and>
   (n < 50 \<longrightarrow> should_generate_follow_up i n = False) \<and>
   should_generate_follow_up i n =
     (i \<in> {''query'', ''information'', ''feedback''} \<and> 50 \<le> n) \<and>
   should_generate_follow_up ''query'' 49 = False \<and>
   should_generate_follow_up ''query'' 50 = True \<and>
   should_generate_follow_up ''feedback'' 200 = True"
  by (auto simp: should_generate_follow_up_def)

theorem should_generate_follow_up_gate_witness:
  "(12 :: int) < 50 \<and> should_generate_follow_up ''information'' 12 = False"
  using should_generate_follow_up_gate [of 12 "''information''"] by simp

subsection \<open>The generative classifier\<close>

lemma strip_Nil: "strip [] = []"
  by (simp add: strip_def)

text \<open>
  C1: \<open>classify\<close> is to return a confidence in [0, 1] and an intent of the closed set under
  either strategy, the text fallback of the generative strategy included. The intent
  holds, the bound on the confidence does not: \<open>_extract_intent_from_text\<close> divides a
  numeral above 1 by 100 and does not clamp, so a numeral above 100 gives a confidence
  above 1. When the gateway answers \<open>query about the year 2024\<close>, the answer holds no JSON
  object, the label \<open>query\<close> is found, the first numeral is 2024, and \<open>classify_intent\<close>
  returns the confidence 20.24.
\<close>

theorem text_fallback_confidence_exceeds_one:
  "fst (ai_classify_intent loads
          \<lparr>outcomes = [Some ''query about the year 2024''], calls = 0\<rparr> ''when was that'')
     = Inr (''query'', 506 / 25) \<and> (1 :: real) < 506 / 25"
proof -
  have m: "strip ''when was that'' \<noteq> []" by code_simp
  have s: "strip ''query about the year 2024'' = ''query about the year 2024''" by code_simp
  have j: "search False json_regex ''query about the year 2024'' = None" by code_simp
  have f: "List.find (\<lambda>i. contains (lower ''query about the year 2024'') i) intent_categories
             = Some ''query''" by code_simp
  have n: "search False number_regex ''query about the year 2024'' = Some (21, 25)" by code_simp
  have g: "group ''query about the year 2024'' (21, 25) = ''2024''" by code_simp
  have v: "float_of ''2024'' = 2024" by (simp add: float_of_def digits_value_def is_digit_def)
  have "parse_ai_response loads ''query about the year 2024''
          = Some \<lparr>r_intent = ''query'', r_confidence = 506 / 25\<rparr>"
    by (simp add: parse_ai_response_def parse_ai_response_body_def extract_intent_from_text_def
          s j f n g v)
  with m show ?thesis
    by (simp add: ai_classify_intent_def chat_completion_def try_except_def and_then_def)
qed

text \<open>
  C2, as stated: whenever neither parse yields a result, or the gateway call fails, the
  generative \<open>classify\<close> returns (query, 0.3). It fails for the parse miss: the gateway
  answers \<open>I am not sure\<close>, which holds no JSON object and no intent label, and the result
  is not (query, 0.3).
\<close>

theorem parse_miss_is_not_three_tenths:
  "fst (ai_classify_intent loads_nothing
          \<lparr>outcomes = [Some ''I am not sure''], calls = 0\<rparr> ''when was that'')
     \<noteq> Inr (''query'', 3 / 10)"
  by code_simp

text \<open>
  C2, amended: for a message that is not blank, the generative \<open>classify\<close> returns
  (query, 0.3) when the gateway call fails and (query, 0.5) when the call returns a text
  from which neither the JSON parse nor the label scan yields a result; in every case it
  returns a result and raises nothing.
\<close>

theorem ai_classify_intent_fallbacks:
  assumes "strip message \<noteq> []"
  shows "(fst (chat_completion g) = Inl e \<longrightarrow>
            fst (ai_classify_intent loads g message) = Inr (''query'', 3 / 10)) \<and>
         (fst (chat_completion g) = Inr t \<and> parse_ai_response loads t = None \<longrightarrow>
            fst (ai_classify_intent loads g message) = Inr (''query'', 1 / 2)) \<and>
         (\<exists>r. fst (ai_classify_intent loads g message) = Inr r)"
proof -
  from assms have ne: "\<not> (message = [] \<or> strip message = [])"
    by (auto simp: strip_def)
  obtain r g' where cc: "chat_completion g = (r, g')"
    by (cases "chat_completion g")
  show ?thesis
    by (cases r)
       (simp_all add: ai_classify_intent_def ne cc try_except_def and_then_def
          split: option.splits del: split_paired_Ex)
qed

theorem ai_classify_intent_fallbacks_witness:
  "fst (ai_classify_intent loads_nothing \<lparr>outcomes = [None], calls = 0\<rparr> ''hello'')
      = Inr (''query'', 3 / 10) \<and>
   fst (ai_classify_intent loads_nothing \<lparr>outcomes = [Some ''no idea''], calls = 0\<rparr> ''hello'')
      = Inr (''query'', 1 / 2)"
proof -
  have s: "strip ''hello'' \<noteq> []" by code_simp
  have a: "fst (chat_completion \<lparr>outcomes = [None], calls = 0\<rparr>) = Inl GatewayError"
    by (simp add: chat_completion_def)
  have b: "fst (chat_completion \<lparr>outcomes = [Some ''no idea''], calls = 0\<rparr>) = Inr ''no idea''"
    by (simp add: chat_completion_def)
  have p: "parse_ai_response loads_nothing ''no idea'' = None" by code_simp
  from ai_classify_intent_fallbacks [OF s, where g = "\<lparr>outcomes = [None], calls = 0\<rparr>"
        and e = GatewayError and loads = loads_nothing] a
    ai_classify_intent_fallbacks [OF s, where g = "\<lparr>outcomes = [Some ''no idea''], calls = 0\<rparr>"
        and t = "''no idea''" and loads = loads_nothing] b p
  show ?thesis by blast
qed

text \<open>
  C3, as stated: \<open>classify\<close> of the empty string and of a whitespace-only string is
  (query, 0.1) under both strategies. The pattern-based \<open>classify_intent\<close> returns the
  confidence 0.0 there.
\<close>

theorem pattern_classify_empty_is_not_one_tenth:
  "classify_intent [] \<noteq> (''query'', 1 / 10)"
  by (simp add: classify_intent_def)

text \<open>
  C3, amended: for a message that is empty or whitespace only, both strategies return
  the intent query without a call of the gateway (the gateway state is returned as it
  was), with the confidence 0.1 under the generative strategy and 0.0 under the
  pattern-based one.
\<close>

theorem classify_blank_message:
  "strip message = [] \<Longrightarrow>
     classify_intent message = (''query'', 0) \<and>
     ai_classify_intent loads g message = (Inr (''query'', 1 / 10), g)"
  by (simp add: classify_intent_def ai_classify_intent_def)

theorem classify_blank_message_witness:
  "classify_intent ''   '' = (''query'', 0) \<and>
   ai_classify_intent loads_nothing \<lparr>outcomes = [Some ''greetings''], calls = 0\<rparr> ''   ''
     = (Inr (''query'', 1 / 10), \<lparr>outcomes = [Some ''greetings''], calls = 0\<rparr>)"
proof -
  have s: "strip ''   '' = []" by code_simp
  from classify_blank_message [OF s] show ?thesis by blast
qed

subsection \<open>The follow-up pipeline\<close>

lemma analyze_response_total:
  "\<exists>a. fst (analyze_response g reply i) = Inr a"
  by (cases "chat_completion g"; cases "fst (chat_completion g)")
     (auto simp: analyze_response_def try_except_def and_then_def)

lemma analyze_response_state:
  "snd (analyze_response g reply i) = snd (chat_completion g)"
  by (cases "chat_completion g") (simp add: analyze_response_def)

lemma generate_questions_value:
  "fst (generate_questions g um reply a) =
     (case fst (chat_completion g) of
        Inl e \<Rightarrow> Inr (get_fallback_questions (response_type a))
      | Inr t \<Rightarrow> Inr (parse_questions t))"
  by (cases "chat_completion g"; cases "fst (chat_completion g)")
     (auto simp: generate_questions_def try_except_def and_then_def)

lemma generate_follow_up_questions_step:
  "fst (analyze_response g reply i) = Inr a \<Longrightarrow>
   fst (generate_follow_up_questions g um reply i) =
     fst (generate_questions (snd (chat_completion g)) um reply a)"
  using generate_questions_value [of "snd (chat_completion g)" um reply a]
    analyze_response_state [of g reply i]
  by (cases "analyze_response g reply i";
      cases "generate_questions (snd (chat_completion g)) um reply a")
     (auto simp: generate_follow_up_questions_def try_except_def split: sum.splits)

text \<open>
  What \<open>generate_follow_up_questions\<close> returns is decided by the outcome of the second
  gateway call, the one of \<open>_generate_questions\<close>; the analysis \<open>a\<close> is the parsed answer of
  the first call, or the default analysis when that call failed.
\<close>

lemma generate_follow_up_questions_value:
  "\<exists>a :: analysis. fst (generate_follow_up_questions g um reply i) =
     (case fst (chat_completion (snd (chat_completion g))) of
        Inl e \<Rightarrow> Inr (get_fallback_questions (response_type a))
      | Inr t \<Rightarrow> Inr (parse_questions t))"
proof -
  obtain a where a: "fst (analyze_response g reply i) = Inr a"
    using analyze_response_total by blast
  have "fst (generate_follow_up_questions g um reply i) =
     (case fst (chat_completion (snd (chat_completion g))) of
        Inl e \<Rightarrow> Inr (get_fallback_questions (response_type a))
      | Inr t \<Rightarrow> Inr (parse_questions t))"
    by (simp add: generate_follow_up_questions_step [OF a] generate_questions_value)
  then show ?thesis by blast
qed

text \<open>
  C4, as stated: whenever a gateway call fails, in the analyzer step or in the generation
  step, \<open>generateFollowUps\<close> returns the fallback list of the intent. It fails when only the
  analyzer call fails: the default analysis stands in, the generation call is made, and
  its parsed questions are returned.
\<close>

theorem analyzer_failure_is_absorbed:
  "fst (generate_follow_up_questions
         \<lparr>outcomes = [None, Some ''Would you like to see an example?''], calls = 0\<rparr>
         ''hi'' ''reply'' ''query'')
     \<noteq> Inr (get_fallback_questions ''query'')"
proof -
  have p: "parse_questions ''Would you like to see an example?''
             = [''Would you like to see an example?'']"
    by code_simp
  have b: "fst (chat_completion (snd (chat_completion
             \<lparr>outcomes = [None, Some ''Would you like to see an example?''], calls = 0\<rparr>)))
           = Inr ''Would you like to see an example?''"
    by (simp add: chat_completion_def)
  from generate_follow_up_questions_value
         [of "\<lparr>outcomes = [None, Some ''Would you like to see an example?''], calls = 0\<rparr>"
             "''hi''" "''reply''" "''query''"]
  have "fst (generate_follow_up_questions
         \<lparr>outcomes = [None, Some ''Would you like to see an example?''], calls = 0\<rparr>
         ''hi'' ''reply'' ''query'') = Inr [''Would you like to see an example?'']"
    by (simp add: b p)
  then show ?thesis by (simp add: get_fallback_questions_def)
qed

text \<open>
  C4, amended: whenever the gateway call of the generation step fails,
  \<open>generateFollowUps\<close> returns one of the fixed fallback lists; when only the call of the
  analyzer step fails, it returns the questions parsed from the answer of the generation
  call; in every case it returns a list and propagates no failure.
\<close>

theorem generate_follow_up_questions_degrades:
  "(fst (chat_completion (snd (chat_completion g))) = Inl e \<longrightarrow>
      (\<exists>k. fst (generate_follow_up_questions g um reply i) = Inr (get_fallback_questions k))) \<and>
   (fst (chat_completion g) = Inl e' \<and>
    fst (chat_completion (snd (chat_completion g))) = Inr t \<longrightarrow>
      fst (generate_follow_up_questions g um reply i) = Inr (parse_questions t)) \<and>
   (\<exists>qs. fst (generate_follow_up_questions g um reply i) = Inr qs)"
proof -
  obtain a :: analysis where v: "fst (generate_follow_up_questions g um reply i) =
     (case fst (chat_completion (snd (chat_completion g))) of
        Inl e \<Rightarrow> Inr (get_fallback_questions (response_type a))
      | Inr t \<Rightarrow> Inr (parse_questions t))"
    using generate_follow_up_questions_value by blast
  show ?thesis
    by (cases "fst (chat_completion (snd (chat_completion g)))") (auto simp: v)
qed

theorem generate_follow_up_questions_degrades_witness:
  "(\<exists>k. fst (generate_follow_up_questions \<lparr>outcomes = [Some ''Type: general'', None], calls = 0\<rparr>
            ''hi'' ''reply'' ''information'') = Inr (get_fallback_questions k)) \<and>
   fst (generate_follow_up_questions \<lparr>outcomes = [None, Some ''Shall we?''], calls = 0\<rparr>
          ''hi'' ''reply'' ''information'') = Inr (parse_questions ''Shall we?'')"
proof -
  have a: "fst (chat_completion (snd (chat_completion
             \<lparr>outcomes = [Some ''Type: general'', None], calls = 0\<rparr>))) = Inl GatewayError"
    by (simp add: chat_completion_def)
  have b: "fst (chat_completion \<lparr>outcomes = [None, Some ''Shall we?''], calls = 0\<rparr>)
             = Inl GatewayError"
    by (simp add: chat_completion_def)
  have c: "fst (chat_completion (snd (chat_completion
             \<lparr>outcomes = [None, Some ''Shall we?''], calls = 0\<rparr>))) = Inr ''Shall we?''"
    by (simp add: chat_completion_def)
  from generate_follow_up_questions_degrades
         [where g = "\<lparr>outcomes = [Some ''Type: general'', None], calls = 0\<rparr>"
            and e = GatewayError and um = "''hi''" and reply = "''reply''"
            and i = "''information''"] a
       generate_follow_up_questions_degrades
         [where g = "\<lparr>outcomes = [None, Some ''Shall we?''], calls = 0\<rparr>"
            and e' = GatewayError and t = "''Shall we?''" and um = "''hi''"
            and reply = "''reply''" and i = "''information''"] b c
  show ?thesis by blast
qed

text \<open>
  The list chosen when the generation call fails is the one of the analysis' response
  type, not of the intent: with both calls failing and the intent query, the result is
  the generic list.
\<close>

lemma fallback_chosen_by_response_type:
  "fst (generate_follow_up_questions \<lparr>outcomes = [], calls = 0\<rparr> ''hi'' ''reply'' ''query'')
     = Inr (get_fallback_questions ''general'') \<and>
   get_fallback_questions ''general'' \<noteq> get_fallback_questions ''query''"
  by (simp add: generate_follow_up_questions_def analyze_response_def generate_questions_def
        chat_completion_def try_except_def and_then_def default_analysis_def
        get_fallback_questions_def)

subsection \<open>The question parser\<close>

lemma keep_in_dropWhile: "\<not> P c \<Longrightarrow> c \<in> set xs \<Longrightarrow> c \<in> set (dropWhile P xs)"
  by (induction xs) auto

lemma keep_in_strip_chars: "c \<notin> set cs \<Longrightarrow> c \<in> set s \<Longrightarrow> c \<in> set (strip_chars cs s)"
  by (simp add: strip_chars_def keep_in_dropWhile)

lemma keep_in_strip: "\<not> is_space c \<Longrightarrow> c \<in> set s \<Longrightarrow> c \<in> set (strip s)"
  by (simp add: strip_def keep_in_dropWhile)

lemma last_dropWhile: "dropWhile P xs \<noteq> [] \<Longrightarrow> last (dropWhile P xs) = last xs"
  by (induction xs) (auto split: if_splits)

text \<open>What \<open>s.strip(chars)\<close> leaves neither starts nor ends with one of the characters.\<close>

lemma strip_chars_ends:
  assumes "strip_chars cs s \<noteq> []"
  shows "hd (strip_chars cs s) \<notin> set cs \<and> last (strip_chars cs s) \<notin> set cs"
proof -
  let ?P = "\<lambda>c. c \<in> set cs"
  let ?ys = "dropWhile ?P s"
  let ?zs = "dropWhile ?P (rev ?ys)"
  from assms have z: "?zs \<noteq> []" by (simp add: strip_chars_def)
  have y: "?ys \<noteq> []"
  proof
    assume e: "?ys = []"
    have "?zs = []" unfolding e by simp
    with z show False by simp
  qed
  have "last (strip_chars cs s) = hd ?zs" by (simp add: strip_chars_def last_rev)
  moreover have "\<not> ?P (hd ?zs)" using z by (rule hd_dropWhile)
  moreover have "hd (strip_chars cs s) = last ?zs" by (simp add: strip_chars_def hd_rev)
  moreover have "last ?zs = last (rev ?ys)" using z by (rule last_dropWhile)
  moreover have "last (rev ?ys) = hd ?ys" by (simp add: last_rev)
  moreover have "\<not> ?P (hd ?ys)" using y by (rule hd_dropWhile)
  ultimately show ?thesis by simp
qed

lemma question_mark_not_marker: "CHR ''?'' \<notin> set markers"
  by (simp add: markers_def bullet_def)

lemma question_mark_not_space: "\<not> is_space CHR ''?''"
  by (simp add: is_space_def)

lemma line_questions_elem:
  "q \<in> set (line_questions ls) \<Longrightarrow>
     CHR ''?'' \<in> set q \<and> 10 < length q \<and> hd q \<notin> set markers \<and> last q \<notin> set markers"
proof (induction ls)
  case Nil
  then show ?case by simp
next
  case (Cons l ls)
  show ?case
  proof (cases "q \<in> set (line_questions ls)")
    case True
    then show ?thesis by (rule Cons.IH)
  next
    case False
    with Cons.prems have q: "q = strip_chars markers (strip l)"
      and m: "CHR ''?'' \<in> set (strip l)" and n: "10 < length q"
      by (auto simp: Let_def split: if_splits dest: last_in_set)
    from n have "strip_chars markers (strip l) \<noteq> []" by (auto simp: q)
    then show ?thesis
      using strip_chars_ends [of markers "strip l"] n
        keep_in_strip_chars [OF question_mark_not_marker m]
      by (simp add: q)
  qed
qed

lemma line_questions_subseq:
  "subseq (line_questions ls) (map (\<lambda>l. strip_chars markers (strip l)) ls)"
  by (induction ls) (auto simp: Let_def)

lemma sentence_questions_elem:
  "q \<in> set (sentence_questions ss) \<Longrightarrow> CHR ''?'' \<in> set q \<and> 10 < length q"
  by (induction ss)
     (auto simp: Let_def keep_in_strip question_mark_not_space split: if_splits)

lemma sentence_questions_subseq:
  "subseq (sentence_questions ss) (map strip ss)"
  by (induction ss) (auto simp: Let_def)

lemma subseq_take_left: "subseq (take n xs) xs"
  by (induction xs arbitrary: n) (auto simp: take_Cons split: nat.splits)

text \<open>
  C6, as stated: every element of a list the parser returns is, among other things,
  trimmed of surrounding quote characters. \<open>_parse_questions\<close> strips no quotes: a line in
  double quotes comes back with them.
\<close>

theorem parse_questions_keeps_quotes:
  "parse_questions (CHR 0x22 # ''Shall we go on?'' @ [CHR 0x22])
     = [CHR 0x22 # ''Shall we go on?'' @ [CHR 0x22]]"
  by code_simp

text \<open>
  C6, amended: every list the parser returns has at most 3 elements, each with a question
  mark and more than 10 characters. When a line of the answer qualifies, the list is a
  subsequence, in order, of the lines with whitespace and the enumeration characters
  (bullet, hyphen, asterisk, the digits 1 to 9, full stop, space) stripped from both ends,
  so no element starts or ends with one of them; otherwise it is a subsequence, in order,
  of the whitespace-stripped pieces of the answer between full stops. Quote characters
  are not removed by the parser.
\<close>

theorem parse_questions_candidates:
  "length (parse_questions r) \<le> 3 \<and>
   (\<forall>q \<in> set (parse_questions r). CHR ''?'' \<in> set q \<and> 10 < length q) \<and>
   (line_questions (split_on CHR 0x0A (strip r)) \<noteq> [] \<longrightarrow>
      subseq (parse_questions r)
        (map (\<lambda>l. strip_chars markers (strip l)) (split_on CHR 0x0A (strip r))) \<and>
      (\<forall>q \<in> set (parse_questions r). hd q \<notin> set markers \<and> last q \<notin> set markers)) \<and>
   (line_questions (split_on CHR 0x0A (strip r)) = [] \<longrightarrow>
      subseq (parse_questions r) (map strip (split_on CHR ''.'' r)))"
proof (cases "line_questions (split_on CHR 0x0A (strip r)) = []")
  case True
  then have p: "parse_questions r = take 3 (sentence_questions (split_on CHR ''.'' r))"
    by (simp add: parse_questions_def)
  have "subseq (parse_questions r) (map strip (split_on CHR ''.'' r))"
    unfolding p
    by (rule subseq_order.order_trans [OF subseq_take_left sentence_questions_subseq])
  moreover have "\<forall>q \<in> set (parse_questions r). CHR ''?'' \<in> set q \<and> 10 < length q"
    unfolding p by (blast dest: in_set_takeD sentence_questions_elem)
  ultimately show ?thesis using True by (simp add: p)
next
  case False
  then have p: "parse_questions r = take 3 (line_questions (split_on CHR 0x0A (strip r)))"
    by (simp add: parse_questions_def)
  have "subseq (parse_questions r)
        (map (\<lambda>l. strip_chars markers (strip l)) (split_on CHR 0x0A (strip r)))"
    unfolding p
    by (rule subseq_order.order_trans [OF subseq_take_left line_questions_subseq])
  moreover have "\<forall>q \<in> set (parse_questions r).
      CHR ''?'' \<in> set q \<and> 10 < length q \<and> hd q \<notin> set markers \<and> last q \<notin> set markers"
    unfolding p by (blast dest: in_set_takeD line_questions_elem)
  ultimately show ?thesis using False by (simp add: p)
qed

theorem parse_questions_candidates_witness:
  "parse_questions ''1. Shall we go on?'' = [''Shall we go on?''] \<and>
   CHR ''?'' \<in> set ''Shall we go on?'' \<and> 10 < length ''Shall we go on?'' \<and>
   hd ''Shall we go on?'' \<notin> set markers \<and> last ''Shall we go on?'' \<notin> set markers \<and>
   subseq [''Shall we go on?'']
     (map (\<lambda>l. strip_chars markers (strip l)) (split_on CHR 0x0A (strip ''1. Shall we go on?''))) \<and>
   parse_questions ''-   Why so?'' = [''-   Why so?''] \<and>
   subseq [''-   Why so?''] (map strip (split_on CHR ''.'' ''-   Why so?''))"
proof -
  have a: "parse_questions ''1. Shall we go on?'' = [''Shall we go on?'']" by code_simp
  have b: "line_questions (split_on CHR 0x0A (strip ''1. Shall we go on?'')) \<noteq> []"
    by code_simp
  have c: "parse_questions ''-   Why so?'' = [''-   Why so?'']" by code_simp
  have d: "line_questions (split_on CHR 0x0A (strip ''-   Why so?'')) = []" by code_simp
  from parse_questions_candidates [of "''1. Shall we go on?''"] b
  have "subseq (parse_questions ''1. Shall we go on?'')
          (map (\<lambda>l. strip_chars markers (strip l))
             (split_on CHR 0x0A (strip ''1. Shall we go on?''))) \<and>
        (\<forall>q \<in> set (parse_questions ''1. Shall we go on?'').
           CHR ''?'' \<in> set q \<and> 10 < length q \<and> hd q \<notin> set markers \<and> last q \<notin> set markers)"
    by blast
  moreover from parse_questions_candidates [of "''-   Why so?''"] d
  have "subseq (parse_questions ''-   Why so?'') (map strip (split_on CHR ''.'' ''-   Why so?''))"
    by blast
  ultimately show ?thesis unfolding a c by simp
qed

subsection \<open>Appending the best follow-up\<close>

text \<open>
  \<open>s.strip(chars)\<close> removes a run of the characters from the start of \<open>s\<close> and one from its
  end, and nothing else.
\<close>

lemma strip_chars_split:
  "\<exists>l r. s = l @ strip_chars cs s @ r \<and> set l \<subseteq> set cs \<and> set r \<subseteq> set cs"
proof -
  let ?P = "\<lambda>c. c \<in> set cs"
  let ?ys = "dropWhile ?P s"
  let ?l = "takeWhile ?P s"
  let ?r = "rev (takeWhile ?P (rev ?ys))"
  have "rev (takeWhile ?P (rev ?ys) @ dropWhile ?P (rev ?ys))
          = rev (dropWhile ?P (rev ?ys)) @ ?r"
    by (rule rev_append)
  moreover have "takeWhile ?P (rev ?ys) @ dropWhile ?P (rev ?ys) = rev ?ys"
    by (rule takeWhile_dropWhile_id)
  ultimately have "rev (rev ?ys) = rev (dropWhile ?P (rev ?ys)) @ ?r"
    by (simp only:)
  then have y: "?ys = strip_chars cs s @ ?r"
    by (simp only: rev_rev_ident strip_chars_def)
  have "?l @ ?ys = s" by (rule takeWhile_dropWhile_id)
  with y have "s = ?l @ strip_chars cs s @ ?r" by (simp only:)
  moreover have "set ?l \<subseteq> set cs" by (auto dest: set_takeWhileD)
  moreover have "set ?r \<subseteq> set cs" by (auto dest: set_takeWhileD)
  ultimately show ?thesis by blast
qed

text \<open>
  C5: \<open>appendBest\<close> returns the reply unchanged when \<open>generateFollowUps\<close> returns the empty
  list; otherwise the reply, a blank line, and the first candidate with the double quotes
  at its ends stripped: what is appended is the candidate without a run of double quotes
  at its start and one at its end, and neither starts nor ends with a double quote. An
  exception on the way gives the reply unchanged. It never raises and the reply is a
  prefix of its result.
\<close>

theorem append_best_follow_up_additive:
  "(fst (generate_follow_up_questions g um reply i) = Inr [] \<longrightarrow>
      fst (append_best_follow_up_to_response g um reply i) = Inr reply) \<and>
   (fst (generate_follow_up_questions g um reply i) = Inr (q # qs) \<longrightarrow>
      fst (append_best_follow_up_to_response g um reply i)
        = Inr (reply @ [CHR 0x0A, CHR 0x0A] @ strip_chars [CHR 0x22] q) \<and>
      (strip_chars [CHR 0x22] q \<noteq> [] \<longrightarrow>
         hd (strip_chars [CHR 0x22] q) \<noteq> CHR 0x22 \<and>
         last (strip_chars [CHR 0x22] q) \<noteq> CHR 0x22) \<and>
      (\<exists>l r. q = l @ strip_chars [CHR 0x22] q @ r \<and>
             set l \<subseteq> {CHR 0x22} \<and> set r \<subseteq> {CHR 0x22})) \<and>
   append_follow_up (Inl e) reply = Inr reply \<and>
   (\<exists>r. fst (append_best_follow_up_to_response g um reply i) = Inr r \<and> prefix reply r)"
proof -
  have v: "fst (append_best_follow_up_to_response g um reply i)
             = append_follow_up (fst (generate_follow_up_questions g um reply i)) reply"
    by (cases "generate_follow_up_questions g um reply i")
       (simp add: append_best_follow_up_to_response_def)
  have t: "\<exists>r. append_follow_up x reply = Inr r \<and> prefix reply r" for x
    by (cases x) (auto simp: append_follow_up_def try_except_def and_then_def)
  have a: "fst (generate_follow_up_questions g um reply i) = Inr [] \<longrightarrow>
      fst (append_best_follow_up_to_response g um reply i) = Inr reply"
    by (simp add: v append_follow_up_def try_except_def and_then_def)
  have b: "fst (generate_follow_up_questions g um reply i) = Inr (q # qs) \<longrightarrow>
      fst (append_best_follow_up_to_response g um reply i)
        = Inr (reply @ [CHR 0x0A, CHR 0x0A] @ strip_chars [CHR 0x22] q)"
    by (simp add: v append_follow_up_def try_except_def and_then_def)
  have c: "strip_chars [CHR 0x22] q \<noteq> [] \<longrightarrow>
         hd (strip_chars [CHR 0x22] q) \<noteq> CHR 0x22 \<and>
         last (strip_chars [CHR 0x22] q) \<noteq> CHR 0x22"
    using strip_chars_ends [of "[CHR 0x22]" q] by simp
  have d: "\<exists>l r. q = l @ strip_chars [CHR 0x22] q @ r \<and>
             set l \<subseteq> {CHR 0x22} \<and> set r \<subseteq> {CHR 0x22}"
    using strip_chars_split [of q "[CHR 0x22]"] by simp
  have e: "append_follow_up (Inl e) reply = Inr reply"
    by (simp add: append_follow_up_def try_except_def and_then_def)
  from a b c d e t [of "fst (generate_follow_up_questions g um reply i)"]
  show ?thesis unfolding v by blast
qed

theorem append_best_follow_up_additive_witness:
  "fst (append_best_follow_up_to_response \<lparr>outcomes = [None, Some ''no''], calls = 0\<rparr>
          ''hi'' ''reply'' ''query'') = Inr ''reply'' \<and>
   fst (append_best_follow_up_to_response
          \<lparr>outcomes = [None, Some (CHR 0x22 # ''Shall we go on?'' @ [CHR 0x22])], calls = 0\<rparr>
          ''hi'' ''reply'' ''query'')
     = Inr (''reply'' @ [CHR 0x0A, CHR 0x0A] @ ''Shall we go on?'') \<and>
   hd ''Shall we go on?'' \<noteq> CHR 0x22 \<and> last ''Shall we go on?'' \<noteq> CHR 0x22"
proof -
  have p: "parse_questions ''no'' = []" by code_simp
  have a: "fst (generate_follow_up_questions \<lparr>outcomes = [None, Some ''no''], calls = 0\<rparr>
                  ''hi'' ''reply'' ''query'') = Inr []"
    by (simp add: generate_follow_up_questions_def analyze_response_def generate_questions_def
          chat_completion_def try_except_def and_then_def p)
  have p': "parse_questions (CHR 0x22 # ''Shall we go on?'' @ [CHR 0x22])
              = [CHR 0x22 # ''Shall we go on?'' @ [CHR 0x22]]"
    by code_simp
  have b: "fst (generate_follow_up_questions
                  \<lparr>outcomes = [None, Some (CHR 0x22 # ''Shall we go on?'' @ [CHR 0x22])],
                   calls = 0\<rparr> ''hi'' ''reply'' ''query'')
             = Inr ((CHR 0x22 # ''Shall we go on?'' @ [CHR 0x22]) # [])"
    by (simp add: generate_follow_up_questions_def analyze_response_def generate_questions_def
          chat_completion_def try_except_def and_then_def p' del: append.simps)
  have s: "strip_chars [CHR 0x22] (CHR 0x22 # ''Shall we go on?'' @ [CHR 0x22])
             = ''Shall we go on?''"
    by code_simp
  have n: "''Shall we go on?'' \<noteq> []" by simp
  from append_best_follow_up_additive
         [where g = "\<lparr>outcomes = [None, Some ''no''], calls = 0\<rparr>" and um = "''hi''"
            and reply = "''reply''" and i = "''query''"] a
  have x: "fst (append_best_follow_up_to_response \<lparr>outcomes = [None, Some ''no''], calls = 0\<rparr>
          ''hi'' ''reply'' ''query'') = Inr ''reply''"
    by blast
  from append_best_follow_up_additive
         [where g = "\<lparr>outcomes = [None, Some (CHR 0x22 # ''Shall we go on?'' @ [CHR 0x22])],
                       calls = 0\<rparr>" and um = "''hi''"
            and reply = "''reply''" and i = "''query''"
            and q = "CHR 0x22 # ''Shall we go on?'' @ [CHR 0x22]" and qs = "[]"] b
  have y: "fst (append_best_follow_up_to_response
          \<lparr>outcomes = [None, Some (CHR 0x22 # ''Shall we go on?'' @ [CHR 0x22])], calls = 0\<rparr>
          ''hi'' ''reply'' ''query'')
     = Inr (''reply'' @ [CHR 0x0A, CHR 0x0A] @
            strip_chars [CHR 0x22] (CHR 0x22 # ''Shall we go on?'' @ [CHR 0x22])) \<and>
      (strip_chars [CHR 0x22] (CHR 0x22 # ''Shall we go on?'' @ [CHR 0x22]) \<noteq> [] \<longrightarrow>
         hd (strip_chars [CHR 0x22] (CHR 0x22 # ''Shall we go on?'' @ [CHR 0x22])) \<noteq> CHR 0x22 \<and>
         last (strip_chars [CHR 0x22] (CHR 0x22 # ''Shall we go on?'' @ [CHR 0x22])) \<noteq> CHR 0x22)"
    by blast
  from x y [unfolded s] n show ?thesis by blast
qed

subsection \<open>Keywords\<close>

lemma of_char_lower_chr:
  assumes "is_upper c"
  shows "(of_char (lower_chr c) :: nat) = of_char c + 32"
proof -
  from assms have "(of_char c :: nat) + 32 < 256"
    by (auto simp: is_upper_def Let_def)
  with assms show ?thesis by (simp add: lower_chr_def)
qed

lemma lower_chr_not_upper: "\<not> is_upper (lower_chr c)"
proof (cases "is_upper c")
  case True
  then show ?thesis
    using of_char_lower_chr [OF True] unfolding is_upper_def Let_def by arith
next
  case False
  then show ?thesis by (simp add: lower_chr_def)
qed

lemma in_class_word: "in_class False WordChar = is_word"
  by (rule ext) simp

lemma word_regex_ends:
  "set (ends False word_regex s i) \<subseteq> set (ends False (Plus WordChar) s i)"
  by (auto simp: word_regex_def split: if_splits)

lemma take_within_takeWhile:
  "k \<le> length (takeWhile P xs) \<Longrightarrow> take k xs = take k (takeWhile P xs)"
  by (induction xs arbitrary: k) (auto simp: take_Cons split: nat.splits if_splits)

lemma word_regex_end:
  assumes "j \<in> set (ends False word_regex s i)"
  shows "group s (i, j) \<noteq> [] \<and> (\<forall>c \<in> set (group s (i, j)). is_word c)"
proof -
  let ?run = "takeWhile is_word (drop i s)"
  from assms have "j \<in> set (ends False (Plus WordChar) s i)"
    using word_regex_ends by blast
  then have b: "i < j" "j \<le> i + length ?run"
    by (auto simp: in_class_word simp del: upt_Suc)
  define k where "k = j - i"
  from b have k: "j = i + k" "1 \<le> k" "k \<le> length ?run"
    by (simp_all add: k_def)
  have g: "group s (i, j) = take k ?run"
    using take_within_takeWhile [OF k(3)] by (simp add: group_def k)
  have "\<forall>c \<in> set (take k ?run). is_word c"
    by (auto dest: in_set_takeD set_takeWhileD)
  moreover have "take k ?run \<noteq> []" using k by auto
  ultimately show ?thesis by (simp add: g)
qed

lemma search_from_bounds:
  assumes "search_from ic r s pos = Some (i, j)"
  shows "pos \<le> i \<and> i \<le> length s \<and> ends ic r s i \<noteq> [] \<and> j = hd (ends ic r s i)"
proof -
  from assms have f: "List.find (\<lambda>i. ends ic r s i \<noteq> []) [pos ..< Suc (length s)] = Some i"
    and j: "j = hd (ends ic r s i)"
    by (auto simp del: upt_Suc simp: search_from_def split: option.splits)
  from f have "i \<in> set [pos ..< Suc (length s)]" "ends ic r s i \<noteq> []"
    by (auto simp: find_Some_iff simp del: upt_Suc)
  with j show ?thesis by auto
qed

lemma group_subset: "set (group s m) \<subseteq> set s"
  by (auto simp: group_def dest: in_set_takeD in_set_dropD)

lemma findall_from_step:
  "search_from ic r s pos = Some (i, j) \<Longrightarrow>
   findall_from ic r s pos = group s (i, j) # findall_from ic r s (if i < j then j else Suc i)"
  by (subst findall_from.simps) simp

lemma findall_from_stop:
  "search_from ic r s pos = None \<Longrightarrow> findall_from ic r s pos = []"
  by (subst findall_from.simps) simp

text \<open>Every match that \<open>findall\<close> returns is the text of a match found by \<open>search\<close>.\<close>

lemma findall_from_elem:
  "w \<in> set (findall_from ic r s pos) \<Longrightarrow>
     \<exists>i j p. search_from ic r s p = Some (i, j) \<and> w = group s (i, j)"
proof (induction ic r s pos rule: findall_from.induct)
  case (1 ic r s pos)
  show ?case
  proof (cases "search_from ic r s pos")
    case None
    with "1.prems" show ?thesis by (simp add: findall_from_stop)
  next
    case (Some m)
    obtain i j where m: "m = (i, j)" by (cases m)
    from "1.prems" Some m
    have "w = group s (i, j) \<or> w \<in> set (findall_from ic r s (if i < j then j else Suc i))"
      by (simp add: findall_from_step)
    then show ?thesis
    proof
      assume "w = group s (i, j)"
      with Some m show ?thesis by blast
    next
      assume "w \<in> set (findall_from ic r s (if i < j then j else Suc i))"
      then show ?thesis by (rule "1.IH" [OF Some m [symmetric]])
    qed
  qed
qed

lemma findall_from_subset:
  "w \<in> set (findall_from ic r s pos) \<Longrightarrow> set w \<subseteq> set s"
  using findall_from_elem group_subset by blast

text \<open>A match of \<open>\b\w+\b\<close> is a non-empty run of word characters.\<close>

lemma findall_from_word:
  assumes "w \<in> set (findall_from False word_regex s pos)"
  shows "w \<noteq> [] \<and> (\<forall>c \<in> set w. is_word c)"
proof -
  from findall_from_elem [OF assms] obtain i j p
    where m: "search_from False word_regex s p = Some (i, j)" and w: "w = group s (i, j)"
    by blast
  from search_from_bounds [OF m] have "j \<in> set (ends False word_regex s i)" by simp
  then show ?thesis unfolding w by (rule word_regex_end)
qed

lemma keywords_example:
  "extract_keywords ''What is the weather like today'' = [''what'', ''weather'', ''like'', ''today'']"
  by code_simp

text \<open>
  C8: for every message, \<open>keywords\<close> returns at most 10 entries, each a token of the
  lowercased message (a non-empty run of word characters with no capital letter) that is
  longer than 2 and no stop word, in the order of the tokens; the two classifier classes
  agree; and the keywords of \<open>What is the weather like today\<close> are what, weather, like,
  today.
\<close>

theorem extract_keywords_tokens:
  "ai_extract_keywords m = extract_keywords m \<and>
   length (extract_keywords m) \<le> 10 \<and>
   (\<forall>w \<in> set (extract_keywords m).
      2 < length w \<and> w \<notin> set stop_words \<and>
      w \<in> set (findall False word_regex (lower m)) \<and>
      (\<forall>c \<in> set w. is_word c \<and> \<not> is_upper c)) \<and>
   subseq (extract_keywords m) (findall False word_regex (lower m)) \<and>
   extract_keywords ''What is the weather like today''
     = [''what'', ''weather'', ''like'', ''today'']"
proof -
  let ?ws = "findall False word_regex (lower m)"
  let ?keep = "\<lambda>word. word \<notin> set stop_words \<and> length word > 2"
  have k: "extract_keywords m = take 10 (filter ?keep ?ws)"
    by (simp add: extract_keywords_def)
  have "subseq (take 10 (filter ?keep ?ws)) (filter ?keep ?ws)"
    by (rule subseq_take_left)
  then have s: "subseq (extract_keywords m) ?ws"
    unfolding k by (rule subseq_order.order_trans) simp
  have e: "2 < length w \<and> w \<notin> set stop_words \<and> w \<in> set ?ws \<and>
           (\<forall>c \<in> set w. is_word c \<and> \<not> is_upper c)"
    if "w \<in> set (extract_keywords m)" for w
  proof -
    from that have w: "w \<in> set ?ws" "?keep w"
      unfolding k by (auto dest: in_set_takeD)
    from w(1) have "set w \<subseteq> set (lower m)"
      unfolding findall_def by (rule findall_from_subset)
    then have "\<forall>c \<in> set w. \<not> is_upper c"
      by (auto simp: lower_def lower_chr_not_upper)
    moreover from w(1) have "\<forall>c \<in> set w. is_word c"
      unfolding findall_def by (blast dest: findall_from_word)
    ultimately show ?thesis using w by blast
  qed
  have "ai_extract_keywords m = extract_keywords m"
    by (simp add: ai_extract_keywords_def extract_keywords_def)
  moreover have "length (extract_keywords m) \<le> 10" by (simp add: k)
  ultimately show ?thesis using s e keywords_example by blast
qed

theorem extract_keywords_tokens_witness:
  "''weather'' \<in> set (extract_keywords ''What is the weather like today'') \<and>
   2 < length ''weather'' \<and> ''weather'' \<notin> set stop_words \<and>
   CHR ''w'' \<in> set ''weather'' \<and> is_word CHR ''w'' \<and> \<not> is_upper CHR ''w''"
proof -
  have a: "''weather'' \<in> set (extract_keywords ''What is the weather like today'')"
    by (simp add: keywords_example)
  have b: "CHR ''w'' \<in> set ''weather''" by simp
  from extract_keywords_tokens [of "''What is the weather like today''"] a b
  show ?thesis by blast
qed

subsection \<open>The pattern-based classifier\<close>

text \<open>\<open>max\<close> with a key returns the first entry among those of greatest score.\<close>

lemma max_by_score_first:
  "max_by_score best xs = hd (filter (\<lambda>p. snd p = Max (snd ` set (best # xs))) (best # xs))"
proof (induction xs arbitrary: best)
  case Nil
  then show ?case by simp
next
  case (Cons x xs)
  define b where "b = (if snd best < snd x then x else best)"
  define M where "M = Max (snd ` set (best # x # xs))"
  have "Max (snd ` set (b # xs)) = M"
    unfolding b_def M_def by (cases xs) (auto simp: max_def)
  with Cons.IH [of b] have ih: "max_by_score b xs = hd (filter (\<lambda>p. snd p = M) (b # xs))"
    by (simp only:)
  have step: "max_by_score best (x # xs) = max_by_score b xs"
    by (simp add: b_def)
  have le: "snd best \<le> M" "snd x \<le> M"
    unfolding M_def by (rule Max_ge; simp)+
  have "max_by_score best (x # xs) = hd (filter (\<lambda>p. snd p = M) (best # x # xs))"
  proof (cases "snd best < snd x")
    case True
    with le have "snd best \<noteq> M" by auto
    moreover from True have "b = x" by (simp add: b_def)
    ultimately show ?thesis using ih step by simp
  next
    case False
    then have b: "b = best" by (simp add: b_def)
    show ?thesis
    proof (cases "snd best = M")
      case True
      then show ?thesis using ih step b by simp
    next
      case ne: False
      with False le have "snd x \<noteq> M" by auto
      with ne show ?thesis using ih step b by simp
    qed
  qed
  then show ?case by (simp only: M_def)
qed

text \<open>
  C9: the pattern-based \<open>classify\<close> is a function of the message alone: it reads no state
  and has no other input, so two calls on one message return the same pair. The pair is
  fixed as follows: (query, 0.0) for a blank message; otherwise, with the four scores of
  the stripped and lowercased message listed in the order greetings, query, information,
  feedback, it is (query, 0.1) when the greatest score is below 0.1, and else the first
  entry of the list whose score is the greatest, so a tie goes to the intent that comes
  first in that order.
\<close>

theorem classify_intent_deterministic:
  "classify_intent m =
     (if strip m = [] then (''query'', 0)
      else if Max (snd ` set (scores (lower (strip m)))) < 1 / 10 then (''query'', 1 / 10)
      else hd (filter (\<lambda>p. snd p = Max (snd ` set (scores (lower (strip m)))))
                 (scores (lower (strip m))))) \<and>
   map fst (scores (lower (strip m))) = [''greetings'', ''query'', ''information'', ''feedback'']"
proof -
  let ?sc = "scores (lower (strip m))"
  let ?M = "Max (snd ` set ?sc)"
  have ne: "?sc = hd ?sc # tl ?sc" by (simp add: scores_def)
  have f: "max_by_score (hd ?sc) (tl ?sc) = hd (filter (\<lambda>p. snd p = ?M) ?sc)"
    using max_by_score_first [of "hd ?sc" "tl ?sc"] ne by simp
  have s: "snd (hd (filter (\<lambda>p. snd p = ?M) ?sc)) = ?M"
  proof -
    have "?M \<in> snd ` set ?sc" by (rule Max_in) (simp_all add: scores_def)
    then obtain p where "p \<in> set ?sc" "snd p = ?M" by force
    then have "p \<in> set (filter (\<lambda>p. snd p = ?M) ?sc)" by simp
    then have "filter (\<lambda>p. snd p = ?M) ?sc \<noteq> []" by force
    then have "hd (filter (\<lambda>p. snd p = ?M) ?sc) \<in> set (filter (\<lambda>p. snd p = ?M) ?sc)"
      by (rule hd_in_set)
    then show ?thesis by simp
  qed
  have o: "map fst ?sc = [''greetings'', ''query'', ''information'', ''feedback'']"
    by (simp add: scores_def)
  show ?thesis
  proof (cases "strip m = []")
    case True
    then show ?thesis using o by (simp add: classify_intent_def)
  next
    case False
    then have n: "m \<noteq> []" by (auto simp: strip_Nil)
    obtain i c where h: "hd (filter (\<lambda>p. snd p = ?M) ?sc) = (i, c)"
      by (cases "hd (filter (\<lambda>p. snd p = ?M) ?sc)")
    with s have c: "c = ?M" by simp
    have "classify_intent m = (if c < 1 / 10 then (''query'', 1 / 10) else (i, c))"
      using False n by (simp add: classify_intent_def Let_def f h)
    then show ?thesis using False o h by (simp add: c)
  qed
qed

text \<open>
  A tie: the message \<open>Hi, I know\<close> matches one of the seven greeting patterns and one of
  the seven information patterns, and no other pattern.
\<close>

lemma tie_greeting_matches:
  "length (filter (\<lambda>p. search True p ''hi, i know'' \<noteq> None) greeting_regex) = 1"
  by code_simp

lemma tie_query_matches:
  "length (filter (\<lambda>p. search True p ''hi, i know'' \<noteq> None) query_regex) = 0"
  by code_simp

lemma tie_information_matches:
  "length (filter (\<lambda>p. search True p ''hi, i know'' \<noteq> None) information_regex) = 1"
  by code_simp

lemma tie_feedback_matches:
  "length (filter (\<lambda>p. search True p ''hi, i know'' \<noteq> None) feedback_regex) = 0"
  by code_simp

lemma tie_scores:
  "scores ''hi, i know'' =
     [(''greetings'', 19 / 140), (''query'', 0), (''information'', 19 / 140), (''feedback'', 0)]"
proof -
  have l: "length greeting_regex = 7 \<and> length query_regex = 11 \<and>
           length information_regex = 7 \<and> length feedback_regex = 12"
    by (simp add: greeting_regex_def query_regex_def information_regex_def feedback_regex_def)
  show ?thesis
    by (simp add: scores_def calculate_score_def tie_greeting_matches tie_query_matches
          tie_information_matches tie_feedback_matches l del: not_None_eq)
qed

theorem classify_intent_deterministic_witness:
  "scores ''hi, i know'' =
     [(''greetings'', 19 / 140), (''query'', 0), (''information'', 19 / 140), (''feedback'', 0)] \<and>
   classify_intent ''Hi, I know'' = (''greetings'', 19 / 140)"
proof -
  have s: "lower (strip ''Hi, I know'') = ''hi, i know''" by code_simp
  have n: "strip ''Hi, I know'' \<noteq> []" using s by (auto simp: lower_def)
  have M: "Max (snd ` set [(''greetings'', 19 / 140 :: real), (''query'', 0),
              (''information'', 19 / 140), (''feedback'', 0)]) = 19 / 140"
    by simp
  have "classify_intent ''Hi, I know'' =
     (if Max (snd ` set (scores ''hi, i know'')) < 1 / 10 then (''query'', 1 / 10)
      else hd (filter (\<lambda>p. snd p = Max (snd ` set (scores ''hi, i know'')))
                 (scores ''hi, i know'')))"
    using classify_intent_deterministic [of "''Hi, I know''"] n unfolding s by presburger
  then have "classify_intent ''Hi, I know'' = (''greetings'', 19 / 140)"
    unfolding tie_scores M by simp
  with tie_scores show ?thesis by (simp only: simp_thms)
qed

lemma is_space_lower_chr: "is_space (lower_chr c) = is_space c"
proof (cases "is_upper c")
  case True
  then show ?thesis
    using of_char_lower_chr [OF True] unfolding is_space_def is_upper_def Let_def by arith
next
  case False
  then show ?thesis by (simp add: lower_chr_def)
qed

text \<open>Lowercasing and stripping commute.\<close>

lemma lower_strip: "lower (strip s) = strip (lower s)"
proof -
  have c: "is_space \<circ> lower_chr = is_space"
    by (rule ext) (simp add: is_space_lower_chr)
  show ?thesis
    by (simp add: lower_def strip_def rev_map dropWhile_map c)
qed

lemma dropWhile_all: "list_all P a \<Longrightarrow> dropWhile P (a @ xs) = dropWhile P xs"
  by (induction a) auto

text \<open>Whitespace around a message does not change what \<open>strip\<close> returns.\<close>

lemma strip_padding:
  assumes "list_all is_space a" "list_all is_space b"
  shows "strip (a @ s @ b) = strip s"
proof -
  have l: "dropWhile is_space (a @ s @ b) = dropWhile is_space (s @ b)"
    using assms(1) by (rule dropWhile_all)
  have rb: "list_all is_space (rev b)" using assms(2) by (simp add: list_all_iff)
  show ?thesis
  proof (cases "dropWhile is_space s = []")
    case True
    then have "list_all is_space s" by (simp add: list_all_iff)
    then have "dropWhile is_space (s @ b) = dropWhile is_space b" by (rule dropWhile_all)
    also have "\<dots> = []" using assms(2) by (simp add: list_all_iff)
    finally have d: "dropWhile is_space (s @ b) = []" .
    show ?thesis unfolding strip_def l d True by simp
  next
    case False
    then have "dropWhile is_space (s @ b) = dropWhile is_space s @ b"
      by (auto simp: dropWhile_append)
    then have "rev (dropWhile is_space (s @ b)) = rev b @ rev (dropWhile is_space s)"
      by simp
    then show ?thesis
      using dropWhile_all [OF rb, of "rev (dropWhile is_space s)"]
      by (simp add: strip_def l)
  qed
qed

text \<open>The result of \<open>classify_intent\<close> is decided by the stripped, lowercased message.\<close>

lemma classify_intent_by_key:
  assumes "lower (strip x) = lower (strip y)"
  shows "classify_intent x = classify_intent y"
proof -
  have e: "(x = [] \<or> strip x = []) = (lower (strip x) = [])" for x
    by (auto simp: lower_def strip_Nil)
  show ?thesis
    unfolding classify_intent_def e assms ..
qed

text \<open>
  C10, as stated: for every message, an upper-case variant of it gets the same intent and
  confidence. The upper-case form of a text can be longer than the text: that of \<open>hi\<close>
  followed by a sharp s is \<open>HI SS\<close>, whose lowercase form has five characters where the
  message has four. Both are greetings, but the length enters the confidence: 0.14 for
  the message, 39 / 280 for its upper-case form.
\<close>

lemma sharp_s_greeting_matches:
  "length (filter (\<lambda>p. search True p (''hi '' @ [CHR 0xDF]) \<noteq> None) greeting_regex) = 1 \<and>
   length (filter (\<lambda>p. search True p ''hi ss'' \<noteq> None) greeting_regex) = 1"
  by code_simp

lemma sharp_s_query_matches:
  "length (filter (\<lambda>p. search True p (''hi '' @ [CHR 0xDF]) \<noteq> None) query_regex) = 0 \<and>
   length (filter (\<lambda>p. search True p ''hi ss'' \<noteq> None) query_regex) = 0"
  by code_simp

lemma sharp_s_information_matches:
  "length (filter (\<lambda>p. search True p (''hi '' @ [CHR 0xDF]) \<noteq> None) information_regex) = 0 \<and>
   length (filter (\<lambda>p. search True p ''hi ss'' \<noteq> None) information_regex) = 0"
  by code_simp

lemma sharp_s_feedback_matches:
  "length (filter (\<lambda>p. search True p (''hi '' @ [CHR 0xDF]) \<noteq> None) feedback_regex) = 0 \<and>
   length (filter (\<lambda>p. search True p ''hi ss'' \<noteq> None) feedback_regex) = 0"
  by code_simp

lemma sharp_s_scores:
  "scores (''hi '' @ [CHR 0xDF]) =
     [(''greetings'', 7 / 50), (''query'', 0), (''information'', 0), (''feedback'', 0)] \<and>
   scores ''hi ss'' =
     [(''greetings'', 39 / 280), (''query'', 0), (''information'', 0), (''feedback'', 0)]"
proof -
  have l: "length greeting_regex = 7 \<and> length query_regex = 11 \<and>
           length information_regex = 7 \<and> length feedback_regex = 12"
    by (simp add: greeting_regex_def query_regex_def information_regex_def feedback_regex_def)
  show ?thesis
    using sharp_s_greeting_matches sharp_s_query_matches sharp_s_information_matches
      sharp_s_feedback_matches
    by (simp add: scores_def calculate_score_def l del: not_None_eq)
qed

theorem upper_case_variant_changes_confidence:
  "upper (''hi '' @ [CHR 0xDF]) = Some ''HI SS'' \<and>
   classify_intent (''hi '' @ [CHR 0xDF]) = (''greetings'', 7 / 50) \<and>
   classify_intent ''HI SS'' = (''greetings'', 39 / 280) \<and>
   classify_intent ''HI SS'' \<noteq> classify_intent (''hi '' @ [CHR 0xDF])"
proof -
  have u: "upper (''hi '' @ [CHR 0xDF]) = Some ''HI SS''" by code_simp
  have s1: "lower (strip (''hi '' @ [CHR 0xDF])) = ''hi '' @ [CHR 0xDF]" by code_simp
  have s2: "lower (strip ''HI SS'') = ''hi ss''" by code_simp
  have n1: "strip (''hi '' @ [CHR 0xDF]) \<noteq> []" using s1 by (auto simp: lower_def)
  have n2: "strip ''HI SS'' \<noteq> []" using s2 by (auto simp: lower_def)
  have c1: "classify_intent (''hi '' @ [CHR 0xDF]) = (''greetings'', 7 / 50)"
    using n1 sharp_s_scores by (simp add: classify_intent_def s1 del: append.simps)
  have c2: "classify_intent ''HI SS'' = (''greetings'', 39 / 280)"
    using n2 sharp_s_scores by (simp add: classify_intent_def s2)
  from u c1 c2 show ?thesis by simp
qed

text \<open>
  C10, amended: the pattern-based \<open>classify\<close> is invariant under letter case and
  surrounding whitespace for the variants that have the lowercase form of the message: a
  message \<open>m'\<close> with the same lowercase form as \<open>m\<close>, with any whitespace added before and
  after it, gets the same intent and confidence as \<open>m\<close>.
\<close>

theorem classify_intent_case_and_padding:
  assumes "lower m' = lower m" "list_all is_space a" "list_all is_space b"
  shows "classify_intent (a @ m' @ b) = classify_intent m"
proof -
  have "lower (strip (a @ m' @ b)) = lower (strip m')"
    using assms(2,3) by (simp add: strip_padding)
  also have "\<dots> = strip (lower m')" by (rule lower_strip)
  also have "\<dots> = strip (lower m)" by (simp add: assms(1))
  also have "\<dots> = lower (strip m)" by (rule lower_strip [symmetric])
  finally show ?thesis by (rule classify_intent_by_key)
qed

theorem classify_intent_case_and_padding_witness:
  "classify_intent '' HeLLo there  '' = classify_intent ''hello there''"
proof -
  have a: "lower ''HeLLo there'' = lower ''hello there''" by code_simp
  have b: "list_all is_space '' ''" by code_simp
  have c: "list_all is_space ''  ''" by code_simp
  from classify_intent_case_and_padding [OF a b c] show ?thesis by simp
qed

subsection \<open>The range of the results\<close>

text \<open>
  What does hold of the first claim: the pattern-based strategy returns an intent of the
  closed set with a confidence in [0, 1]; the generative strategy returns an intent of
  the closed set with a confidence that is not negative, and in [0, 1] when it comes
  from a validated JSON object.
\<close>

lemma calculate_score_range:
  "0 \<le> calculate_score m ps \<and> calculate_score m ps \<le> 1"
proof -
  let ?n = "length (filter (\<lambda>pattern. search True pattern m \<noteq> None) ps)"
  let ?base = "if length ps > 0 then real ?n / real (length ps) else 0"
  let ?factor = "max (1 / 2) (1 - real (length m) / 200)"
  have v: "calculate_score m ps = min 1 (?base * ?factor)"
    by (simp add: calculate_score_def Let_def del: not_None_eq)
  have "0 \<le> ?base" by simp
  moreover have "0 \<le> ?factor" by simp
  ultimately have "0 \<le> ?base * ?factor" by (rule mult_nonneg_nonneg)
  then show ?thesis unfolding v by simp
qed

lemma max_by_score_mem: "max_by_score best xs \<in> set (best # xs)"
  by (induction xs arbitrary: best) (auto split: if_splits)

lemma scores_range:
  "p \<in> set (scores m) \<Longrightarrow> fst p \<in> set intent_categories \<and> 0 \<le> snd p \<and> snd p \<le> 1"
  using calculate_score_range by (auto simp: scores_def intent_categories_def)

lemma classify_intent_range:
  "fst (classify_intent m) \<in> set intent_categories \<and>
   0 \<le> snd (classify_intent m) \<and> snd (classify_intent m) \<le> 1"
proof (cases "m = [] \<or> strip m = []")
  case True
  then show ?thesis by (auto simp: classify_intent_def intent_categories_def)
next
  case False
  let ?sc = "scores (lower (strip m))"
  obtain i c where p: "max_by_score (hd ?sc) (tl ?sc) = (i, c)"
    by (cases "max_by_score (hd ?sc) (tl ?sc)")
  have "?sc = hd ?sc # tl ?sc" by (simp add: scores_def)
  with max_by_score_mem [of "hd ?sc" "tl ?sc"] have "(i, c) \<in> set ?sc"
    by (simp add: p)
  from scores_range [OF this] have r: "i \<in> set intent_categories" "0 \<le> c" "c \<le> 1"
    by simp_all
  have "classify_intent m = (if c < 1 / 10 then (''query'', 1 / 10) else (i, c))"
    using False by (simp add: classify_intent_def Let_def p)
  then show ?thesis using r by (auto simp: intent_categories_def)
qed

lemma validated_range:
  "validated j = Inr (Some r) \<Longrightarrow>
     r_intent r \<in> set intent_categories \<and> 0 \<le> r_confidence r \<and> r_confidence r \<le> 1"
  by (auto simp: validated_def split: json.splits option.splits if_splits)

lemma float_of_nonneg: "0 \<le> float_of t"
  by (simp add: float_of_def Let_def)

lemma extract_intent_from_text_range:
  assumes "extract_intent_from_text t = Some r"
  shows "r_intent r \<in> set intent_categories \<and> 0 \<le> r_confidence r"
proof -
  from assms obtain i where
    f: "List.find (\<lambda>i. contains (lower t) i) intent_categories = Some i"
    and r: "r = \<lparr>r_intent = i,
                 r_confidence = (case search False number_regex t of
                     None \<Rightarrow> 0.8
                   | Some m \<Rightarrow> let conf_val = float_of (group t m)
                              in if conf_val > 1 then conf_val / 100 else conf_val)\<rparr>"
    by (auto simp: extract_intent_from_text_def Let_def split: option.splits)
  from f have "i \<in> set intent_categories" by (auto simp: find_Some_iff)
  moreover have "0 \<le> r_confidence r"
    using float_of_nonneg by (auto simp: r Let_def split: option.splits)
  ultimately show ?thesis by (simp add: r)
qed

lemma parse_ai_response_range:
  assumes "parse_ai_response loads t = Some r"
  shows "r_intent r \<in> set intent_categories \<and> 0 \<le> r_confidence r"
proof -
  from assms have
    "extract_intent_from_text (strip t) = Some r \<or> (\<exists>j. validated j = Inr (Some r))"
    by (auto simp: parse_ai_response_def parse_ai_response_body_def and_then_def Let_def
          split: option.splits sum.splits)
  then show ?thesis
    using extract_intent_from_text_range validated_range by blast
qed

lemma ai_classify_intent_range:
  assumes "fst (ai_classify_intent loads g m) = Inr (i, c)"
  shows "i \<in> set intent_categories \<and> 0 \<le> c"
proof (cases "m = [] \<or> strip m = []")
  case True
  with assms show ?thesis by (auto simp: ai_classify_intent_def intent_categories_def)
next
  case False
  obtain x g' where cc: "chat_completion g = (x, g')" by (cases "chat_completion g")
  show ?thesis
  proof (cases x)
    case (Inl e)
    with assms False cc show ?thesis
      by (auto simp: ai_classify_intent_def try_except_def and_then_def intent_categories_def)
  next
    case (Inr t)
    show ?thesis
    proof (cases "parse_ai_response loads t")
      case None
      with assms False cc Inr show ?thesis
        by (auto simp: ai_classify_intent_def try_except_def and_then_def intent_categories_def)
    next
      case (Some r)
      with assms False cc Inr have "i = r_intent r" "c = r_confidence r"
        by (auto simp: ai_classify_intent_def try_except_def and_then_def)
      with parse_ai_response_range [OF Some] show ?thesis by simp
    qed
  qed
qed

end
